theory Spec2Isabelle
  imports Complex_Main
begin

section \<open>OptiTrade: opt-in / opt-out pairs of a time series\<close>

text \<open>
  The embedding follows \<^verbatim>\<open>src/OptiTrader/optitrade.py\<close>. The time series is a pandas
  Series of double-precision samples under the default integer index \<open>0..N-1\<close>; it is
  modelled as a list of samples, so that a label is a position. Every Python exception
  the methods can raise is a value \<open>Inl e\<close> of the result; a loop that may run forever is
  a partial function into \<open>option\<close>, and \<open>None\<close> says that it does not return.
\<close>

subsection \<open>Samples\<close>

text \<open>
  A double is not-a-number, an infinity, or a finite real (the two zeros compare equal
  and are one value here). Comparisons of doubles are exact: any comparison with NaN is
  false, and the rest is the order of the extended reals. Negation is exact as well.
\<close>

datatype sample = NaN | MInf | Fin real | PInf

fun f_le :: "sample \<Rightarrow> sample \<Rightarrow> bool" where
  "f_le NaN y = False"
| "f_le x NaN = False"
| "f_le MInf y = True"
| "f_le x PInf = True"
| "f_le (Fin x) (Fin y) = (x \<le> y)"
| "f_le (Fin x) MInf = False"
| "f_le PInf y = False"

fun f_lt :: "sample \<Rightarrow> sample \<Rightarrow> bool" where
  "f_lt NaN y = False"
| "f_lt x NaN = False"
| "f_lt x MInf = False"
| "f_lt PInf y = False"
| "f_lt MInf y = True"
| "f_lt (Fin x) PInf = True"
| "f_lt (Fin x) (Fin y) = (x < y)"

definition f_ge :: "sample \<Rightarrow> sample \<Rightarrow> bool" where
  "f_ge x y = f_le y x"

definition f_gt :: "sample \<Rightarrow> sample \<Rightarrow> bool" where
  "f_gt x y = f_lt y x"

fun f_neg :: "sample \<Rightarrow> sample" where
  "f_neg NaN = NaN"
| "f_neg MInf = PInf"
| "f_neg PInf = MInf"
| "f_neg (Fin x) = Fin (- x)"

text \<open>
  Addition, subtraction and multiplication of doubles round and overflow. The methods
  take the arithmetic of the machine as the argument \<open>ar\<close>; nothing is assumed about it,
  so what is proved for every \<open>ar\<close> holds for the double arithmetic.
\<close>

record arith =
  fadd :: "sample \<Rightarrow> sample \<Rightarrow> sample"
  fsub :: "sample \<Rightarrow> sample \<Rightarrow> sample"
  fmul :: "sample \<Rightarrow> sample \<Rightarrow> sample"

text \<open>
  The arithmetic without rounding and without overflow, for runs on concrete series: an
  operation on NaN is NaN, \<open>\<infinity> - \<infinity>\<close> and \<open>0 * \<infinity>\<close> are NaN, finite operands give the exact
  result.
\<close>

fun ex_add :: "sample \<Rightarrow> sample \<Rightarrow> sample" where
  "ex_add NaN y = NaN"
| "ex_add x NaN = NaN"
| "ex_add PInf MInf = NaN"
| "ex_add MInf PInf = NaN"
| "ex_add PInf y = PInf"
| "ex_add x PInf = PInf"
| "ex_add MInf y = MInf"
| "ex_add x MInf = MInf"
| "ex_add (Fin x) (Fin y) = Fin (x + y)"

definition ex_sub :: "sample \<Rightarrow> sample \<Rightarrow> sample" where
  "ex_sub x y = ex_add x (f_neg y)"

fun ex_mul :: "sample \<Rightarrow> sample \<Rightarrow> sample" where
  "ex_mul NaN y = NaN"
| "ex_mul x NaN = NaN"
| "ex_mul (Fin x) (Fin y) = Fin (x * y)"
| "ex_mul (Fin x) PInf = (if x = 0 then NaN else if 0 < x then PInf else MInf)"
| "ex_mul (Fin x) MInf = (if x = 0 then NaN else if 0 < x then MInf else PInf)"
| "ex_mul PInf (Fin y) = (if y = 0 then NaN else if 0 < y then PInf else MInf)"
| "ex_mul MInf (Fin y) = (if y = 0 then NaN else if 0 < y then MInf else PInf)"
| "ex_mul PInf PInf = PInf"
| "ex_mul MInf MInf = PInf"
| "ex_mul PInf MInf = MInf"
| "ex_mul MInf PInf = MInf"

definition exact :: arith where
  "exact = \<lparr>fadd = ex_add, fsub = ex_sub, fmul = ex_mul\<rparr>"

subsection \<open>Errors and containers\<close>

datatype error = KeyError | IndexError | ValueError | TypeError

definition bind_err :: "error + 'a \<Rightarrow> ('a \<Rightarrow> error + 'b) \<Rightarrow> error + 'b" where
  "bind_err m f = (case m of Inl e \<Rightarrow> Inl e | Inr x \<Rightarrow> f x)"

text \<open>\<^verbatim>\<open>tseries[i]\<close>: lookup by label; a label that is not in the index raises KeyError.\<close>

definition series_at :: "sample list \<Rightarrow> nat \<Rightarrow> error + sample" where
  "series_at ts i = (if i < length ts then Inr (ts ! i) else Inl KeyError)"

text \<open>\<^verbatim>\<open>xs[i]\<close>, \<^verbatim>\<open>xs[i] = v\<close> and \<^verbatim>\<open>xs.pop(i)\<close> on a Python list: IndexError out of range.\<close>

definition list_at :: "'a list \<Rightarrow> nat \<Rightarrow> error + 'a" where
  "list_at xs i = (if i < length xs then Inr (xs ! i) else Inl IndexError)"

definition list_set :: "'a list \<Rightarrow> nat \<Rightarrow> 'a \<Rightarrow> error + 'a list" where
  "list_set xs i v = (if i < length xs then Inr (xs[i := v]) else Inl IndexError)"

definition list_pop :: "'a list \<Rightarrow> nat \<Rightarrow> error + 'a list" where
  "list_pop xs i = (if i < length xs then Inr (take i xs @ drop (Suc i) xs) else Inl IndexError)"

text \<open>
  \<^verbatim>\<open>tseries[a:b]\<close>: a positional slice, clipped to the series, empty when \<open>b \<le> a\<close>;
  \<open>None\<close> as the end means up to the last sample. The labels of the slice start at \<open>a\<close>.
\<close>

definition slice :: "sample list \<Rightarrow> nat \<Rightarrow> nat option \<Rightarrow> sample list" where
  "slice ts a b = (case b of None \<Rightarrow> drop a ts | Some e \<Rightarrow> take (e - a) (drop a ts))"

text \<open>\<^verbatim>\<open>s.where(cond)\<close>: the samples where the condition fails become NaN.\<close>

definition where_series :: "sample list \<Rightarrow> bool list \<Rightarrow> sample list" where
  "where_series xs cs = map (\<lambda>(x, c). if c then x else NaN) (zip xs cs)"

text \<open>
  \<^verbatim>\<open>s.first_valid_index()\<close>: the label of the first sample that is not NaN, or \<open>None\<close>;
  the first argument is the label of the head of the slice.
\<close>

fun first_valid_index :: "nat \<Rightarrow> sample list \<Rightarrow> nat option" where
  "first_valid_index i [] = None"
| "first_valid_index i (x # xs) = (if x = NaN then first_valid_index (Suc i) xs else Some i)"

text \<open>
  \<^verbatim>\<open>s.argmin()\<close> skips NaN: pandas puts \<open>+\<infinity>\<close> in the place of every NaN and answers the
  position of the first occurrence of the least sample. \<open>argmin_aux best bi i xs\<close> scans
  \<open>xs\<close>, whose head has position \<open>i\<close>, with the least sample so far \<open>best\<close> at position
  \<open>bi\<close>. On an empty series pandas raises ValueError. On a series of NaN alone the model
  raises ValueError as well, as recent releases of pandas do (older ones answer -1); the
  scan never takes the minimum of such a slice, because the slice starts at a sample that
  is below a later one.
\<close>

definition fill_na :: "sample list \<Rightarrow> sample list" where
  "fill_na xs = map (\<lambda>x. if x = NaN then PInf else x) xs"

fun argmin_aux :: "sample \<Rightarrow> nat \<Rightarrow> nat \<Rightarrow> sample list \<Rightarrow> nat" where
  "argmin_aux best bi i [] = bi"
| "argmin_aux best bi i (x # xs) =
     (if f_lt x best then argmin_aux x i (Suc i) xs else argmin_aux best bi (Suc i) xs)"

definition argmin :: "sample list \<Rightarrow> error + nat" where
  "argmin xs =
     (case fill_na xs of
        [] \<Rightarrow> Inl ValueError
      | y # ys \<Rightarrow>
          if list_all (\<lambda>x. x = NaN) xs then Inl ValueError else Inr (argmin_aux y 0 1 ys))"

subsection \<open>The object\<close>

text \<open>
  The penalty handed to the constructor is any Python object; the annotation of
  \<^verbatim>\<open>__init__\<close> names a float or a tuple of floats.
\<close>

datatype penalty = Scalar sample | Tuple "sample list"

text \<open>The attributes the scan mutates.\<close>

record optitrade =
  position :: nat
  tmp :: "nat list"
  registered_pairs :: "nat list list"

text \<open>
  \<^verbatim>\<open>__init__\<close> stores the series and the penalty as they are and resets the mutable
  attributes. The series and the penalty are never assigned again, so the methods
  below take them as arguments.
\<close>

definition OptiTrade_init ::
  "sample list \<Rightarrow> penalty \<Rightarrow> error + (sample list \<times> penalty \<times> optitrade)" where
  "OptiTrade_init tseries pen =
     Inr (tseries, pen, \<lparr>position = 0, tmp = [], registered_pairs = []\<rparr>)"

subsection \<open>The primitives\<close>

text \<open>
  \<^verbatim>\<open>find_smaller\<close>: the argument \<open>ts\<close> is the series passed in (or \<^verbatim>\<open>self.tseries\<close>),
  \<open>pos\<close> starts as \<^verbatim>\<open>self.position\<close>. The conjunction of the loop test is evaluated
  left to right.
\<close>

function find_smaller :: "sample list \<Rightarrow> nat \<Rightarrow> error + nat" where
  "find_smaller ts pos =
     (if pos + 1 < length ts then
        (case series_at ts pos of
           Inl e \<Rightarrow> Inl e
         | Inr x \<Rightarrow>
            (case series_at ts (pos + 1) of
               Inl e \<Rightarrow> Inl e
             | Inr y \<Rightarrow> if f_ge x y then find_smaller ts (pos + 1) else Inr pos))
      else Inr pos)"
  by pat_completeness auto

text \<open>\<^verbatim>\<open>-self.tseries\<close>\<close>

definition neg_series :: "sample list \<Rightarrow> sample list" where
  "neg_series ts = map f_neg ts"

text \<open>
  \<^verbatim>\<open>net_positive\<close> reads the penalty, then \<^verbatim>\<open>tmp[1]\<close>, then \<^verbatim>\<open>tmp[0]\<close>.
  \<^verbatim>\<open>1 - self.penalty\<close> is evaluated first; an int minus a tuple raises TypeError.
\<close>

definition net_positive :: "arith \<Rightarrow> sample list \<Rightarrow> penalty \<Rightarrow> nat list \<Rightarrow> error + bool" where
  "net_positive ar ts pen tmp_buf =
     (case pen of
        Tuple ps \<Rightarrow> Inl TypeError
      | Scalar p \<Rightarrow>
          bind_err (list_at tmp_buf 1) (\<lambda>i1.
          bind_err (series_at ts i1) (\<lambda>v1.
          bind_err (list_at tmp_buf 0) (\<lambda>i0.
          bind_err (series_at ts i0) (\<lambda>v0.
          Inr (f_gt (fsub ar (fmul ar (fsub ar (Fin 1) p) v1) (fmul ar (fadd ar (Fin 1) p) v0))
                    (Fin 0)))))))"

definition find_next_larger :: "sample list \<Rightarrow> nat \<Rightarrow> error + nat option" where
  "find_next_larger ts pos =
     bind_err (series_at ts pos) (\<lambda>min_val.
     Inr (first_valid_index pos
            (where_series (slice ts pos None) (map (\<lambda>v. f_gt v min_val) (slice ts pos None)))))"

definition find_min :: "sample list \<Rightarrow> nat \<Rightarrow> nat option \<Rightarrow> error + nat" where
  "find_min ts pos end_pos = bind_err (argmin (slice ts pos end_pos)) (\<lambda>i. Inr (i + pos))"

text \<open>\<^verbatim>\<open>check_profitable\<close>, for a scalar penalty \<open>p\<close>.\<close>

definition check_profitable :: "arith \<Rightarrow> sample list \<Rightarrow> sample \<Rightarrow> nat \<Rightarrow> sample \<Rightarrow> error + bool" where
  "check_profitable ar ts p pos intermediate =
     bind_err (series_at ts pos) (\<lambda>current.
     Inr (f_gt (fsub ar (fsub ar current intermediate) (fmul ar p (fadd ar current intermediate)))
               (Fin 0)))"

subsection \<open>The scan\<close>

text \<open>
  One pass through the body of the inner \<^verbatim>\<open>while\<close> of \<^verbatim>\<open>find_optimal_pairs\<close>, for a
  scalar penalty \<open>p\<close>: it ends in \<^verbatim>\<open>break\<close> or falls through to the loop test.
\<close>

datatype 'a flow = Continue 'a | Break 'a

definition register :: "optitrade \<Rightarrow> optitrade" where
  "register s = s\<lparr>registered_pairs := registered_pairs s @ [tmp s], tmp := []\<rparr>"

definition inner_body :: "arith \<Rightarrow> sample list \<Rightarrow> sample \<Rightarrow> optitrade \<Rightarrow> error + optitrade flow" where
  "inner_body ar ts p s =
     bind_err (find_smaller (neg_series ts) (position s)) (\<lambda>decision_point.
     let s1 = s\<lparr>position := decision_point, tmp := tmp s @ [decision_point]\<rparr> in
     bind_err (find_next_larger ts (position s1)) (\<lambda>next_larger_id.
     case next_larger_id of
       None \<Rightarrow>
         bind_err (net_positive ar ts (Scalar p) (tmp s1)) (\<lambda>np.
         if np then Inr (Break (register s1)) else Inr (Break (s1\<lparr>tmp := []\<rparr>)))
     | Some nl \<Rightarrow>
         bind_err (find_min ts (position s1) (Some nl)) (\<lambda>intermediate_point.
         bind_err (series_at ts intermediate_point) (\<lambda>iv.
         bind_err (check_profitable ar ts p (position s1) iv) (\<lambda>profitable.
         if profitable then
           bind_err (net_positive ar ts (Scalar p) (tmp s1)) (\<lambda>np.
           if np then Inr (Break (register s1))
           else
             bind_err (find_smaller ts (position s1)) (\<lambda>m.
             bind_err (list_set (tmp s1) 0 m) (\<lambda>t0.
             bind_err (list_pop t0 1) (\<lambda>t1.
             Inr (Continue (s1\<lparr>position := m, tmp := t1\<rparr>))))))
         else
           bind_err (list_pop (tmp s1) 1) (\<lambda>t1.
           Inr (Continue (s1\<lparr>position := nl, tmp := t1\<rparr>))))))))"

text \<open>The inner \<^verbatim>\<open>while\<close>; \<open>None\<close> when it runs forever.\<close>

partial_function (option) inner_loop ::
  "arith \<Rightarrow> sample list \<Rightarrow> sample \<Rightarrow> optitrade \<Rightarrow> (error + optitrade) option" where
  "inner_loop ar ts p s =
     (if position s + 1 < length ts then
        (case inner_body ar ts p s of
           Inl e \<Rightarrow> Some (Inl e)
         | Inr (Break s') \<Rightarrow> Some (Inr s')
         | Inr (Continue s') \<Rightarrow> inner_loop ar ts p s')
      else Some (Inr s))"

text \<open>The body of the outer \<^verbatim>\<open>while\<close>: the opt-in, then the inner loop.\<close>

definition outer_body ::
  "arith \<Rightarrow> sample list \<Rightarrow> sample \<Rightarrow> optitrade \<Rightarrow> (error + optitrade) option" where
  "outer_body ar ts p s =
     (case find_smaller ts (position s) of
        Inl e \<Rightarrow> Some (Inl e)
      | Inr opt_in \<Rightarrow> inner_loop ar ts p (s\<lparr>position := opt_in, tmp := tmp s @ [opt_in]\<rparr>))"

text \<open>The outer \<^verbatim>\<open>while\<close>; \<open>None\<close> when the scan does not return.\<close>

partial_function (option) outer_loop ::
  "arith \<Rightarrow> sample list \<Rightarrow> sample \<Rightarrow> optitrade \<Rightarrow> (error + optitrade) option" where
  "outer_loop ar ts p s =
     (if position s + 1 < length ts then
        (case outer_body ar ts p s of
           None \<Rightarrow> None
         | Some (Inl e) \<Rightarrow> Some (Inl e)
         | Some (Inr s') \<Rightarrow> outer_loop ar ts p s')
      else Some (Inr s))"

text \<open>\<^verbatim>\<open>find_optimal_pairs\<close> on a freshly constructed object with a scalar penalty.\<close>

definition find_optimal_pairs ::
  "arith \<Rightarrow> sample list \<Rightarrow> sample \<Rightarrow> (error + optitrade) option" where
  "find_optimal_pairs ar ts p =
     (case OptiTrade_init ts (Scalar p) of
        Inl e \<Rightarrow> Some (Inl e)
      | Inr (tseries, pen, s) \<Rightarrow> outer_loop ar tseries p s)"

subsection \<open>Scenario A of the specification\<close>

definition scenario_a :: "real list" where
  "scenario_a = [5.94, 5.89, 5.97, 6.0, 5.98, 6.07, 5.88, 5.98, 5.9]"

subsection \<open>Series without NaN\<close>

definition nan_free :: "sample list \<Rightarrow> bool" where
  "nan_free ts = (NaN \<notin> set ts)"

subsection \<open>Invariants of the two loops\<close>

text \<open>
  A registered pair: two indices in chronological order (apart when \<open>strict\<close>), inside
  the series, not beyond \<open>bound\<close>, on which \<^verbatim>\<open>net_positive\<close> answered True. The flag
  \<open>strict\<close> is set for series without NaN.
\<close>

definition pair_ok :: "bool \<Rightarrow> arith \<Rightarrow> sample list \<Rightarrow> sample \<Rightarrow> nat \<Rightarrow> nat list \<Rightarrow> bool" where
  "pair_ok strict ar ts p bound pr =
     (\<exists>a b. pr = [a, b] \<and> a \<le> b \<and> (strict \<longrightarrow> a < b) \<and> b < length ts \<and> b \<le> bound
            \<and> net_positive ar ts (Scalar p) [a, b] = Inr True)"

text \<open>The registry: every pair is as above, and each pair ends before any later one begins.\<close>

definition regs_inv :: "bool \<Rightarrow> arith \<Rightarrow> sample list \<Rightarrow> sample \<Rightarrow> nat \<Rightarrow> nat list list \<Rightarrow> bool" where
  "regs_inv strict ar ts p bound regs =
     ((\<forall>pr \<in> set regs. pair_ok strict ar ts p bound pr) \<and> sorted_wrt (\<lambda>x y. x ! 1 \<le> y ! 0) regs)"

text \<open>
  At the test of the inner loop the buffer holds the opt-in alone and the opt-in is not
  after the cursor; when \<open>strict\<close>, the series rises right after an opt-in that is the
  cursor.
\<close>

definition inner_inv :: "bool \<Rightarrow> arith \<Rightarrow> sample list \<Rightarrow> sample \<Rightarrow> optitrade \<Rightarrow> bool" where
  "inner_inv strict ar ts p s =
     (\<exists>a. tmp s = [a] \<and> a \<le> position s \<and> position s < length ts
          \<and> (strict \<and> a = position s \<and> position s + 1 < length ts \<longrightarrow> f_lt (ts ! a) (ts ! (a + 1)))
          \<and> regs_inv strict ar ts p a (registered_pairs s))"

text \<open>
  At the test of the outer loop the buffer is empty, or holds one index and the cursor
  is at the end of the series.
\<close>

definition outer_inv :: "bool \<Rightarrow> arith \<Rightarrow> sample list \<Rightarrow> sample \<Rightarrow> optitrade \<Rightarrow> bool" where
  "outer_inv strict ar ts p s =
     (length (tmp s) \<le> 1 \<and> (position s + 1 < length ts \<longrightarrow> tmp s = [])
      \<and> (tmp s \<noteq> [] \<longrightarrow> position s < length ts \<and> hd (tmp s) \<le> position s)
      \<and> regs_inv strict ar ts p (position s) (registered_pairs s))"

section \<open>The order of the samples and the primitives\<close>

lemma f_lt_irrefl: "\<not> f_lt x x"
  by (cases x) simp_all

lemma f_lt_imp_le: "f_lt x y \<Longrightarrow> f_le x y"
  by (cases x; cases y) simp_all

lemma f_lt_not_le: "f_lt x y \<Longrightarrow> \<not> f_le y x"
  by (cases x; cases y) simp_all

lemma f_not_le_imp_lt: "x \<noteq> NaN \<Longrightarrow> y \<noteq> NaN \<Longrightarrow> \<not> f_le x y \<Longrightarrow> f_lt y x"
  by (cases x; cases y) simp_all

lemma f_lt_not_NaN: "f_lt x y \<Longrightarrow> x \<noteq> NaN \<and> y \<noteq> NaN"
  by (cases x; cases y) simp_all

lemma f_le_neg: "f_le (f_neg x) (f_neg y) = f_le y x"
  by (cases x; cases y) simp_all

termination find_smaller
  by (relation "measure (\<lambda>(ts, pos). length ts - pos)") auto

declare find_smaller.simps [simp del]

lemma find_smaller_step:
  "pos + 1 < length ts \<Longrightarrow> f_ge (ts ! pos) (ts ! (pos + 1)) \<Longrightarrow>
   find_smaller ts pos = find_smaller ts (pos + 1)"
  by (subst find_smaller.simps) (simp add: series_at_def)

lemma find_smaller_stop:
  "\<not> (pos + 1 < length ts \<and> f_ge (ts ! pos) (ts ! (pos + 1))) \<Longrightarrow> find_smaller ts pos = Inr pos"
  by (subst find_smaller.simps) (auto simp add: series_at_def)

lemma find_smaller_result:
  "\<exists>m. find_smaller ts pos = Inr m \<and> pos \<le> m
       \<and> (m + 1 < length ts \<longrightarrow> \<not> f_ge (ts ! m) (ts ! (m + 1)))
       \<and> (pos < length ts \<longrightarrow> m < length ts)
       \<and> (pos + 1 < length ts \<and> f_ge (ts ! pos) (ts ! (pos + 1)) \<longrightarrow> pos < m)"
proof (induction ts pos rule: find_smaller.induct)
  case (1 ts pos)
  show ?case
  proof (cases "pos + 1 < length ts \<and> f_ge (ts ! pos) (ts ! (pos + 1))")
    case True
    then have "find_smaller ts pos = find_smaller ts (pos + 1)"
      by (simp add: find_smaller_step)
    moreover from True "1.IH"[of "ts ! pos" "ts ! (pos + 1)"]
    obtain m where "find_smaller ts (pos + 1) = Inr m" "pos + 1 \<le> m"
       "m + 1 < length ts \<longrightarrow> \<not> f_ge (ts ! m) (ts ! (m + 1))" "m < length ts"
      by (auto simp: series_at_def)
    ultimately show ?thesis by auto
  next
    case False
    then have "find_smaller ts pos = Inr pos"
      by (rule find_smaller_stop)
    with False show ?thesis by auto
  qed
qed

lemma find_larger_result:
  "\<exists>m. find_smaller (neg_series ts) pos = Inr m \<and> pos \<le> m
       \<and> (m + 1 < length ts \<longrightarrow> \<not> f_le (ts ! m) (ts ! (m + 1)))
       \<and> (pos < length ts \<longrightarrow> m < length ts)
       \<and> (pos + 1 < length ts \<and> f_le (ts ! pos) (ts ! (pos + 1)) \<longrightarrow> pos < m)"
proof -
  obtain m where m: "find_smaller (neg_series ts) pos = Inr m" "pos \<le> m"
      "m + 1 < length (neg_series ts) \<longrightarrow> \<not> f_ge (neg_series ts ! m) (neg_series ts ! (m + 1))"
      "pos < length (neg_series ts) \<longrightarrow> m < length (neg_series ts)"
      "pos + 1 < length (neg_series ts) \<and> f_ge (neg_series ts ! pos) (neg_series ts ! (pos + 1))
         \<longrightarrow> pos < m"
    using find_smaller_result[of "neg_series ts" pos] by blast
  have "m + 1 < length ts \<longrightarrow> \<not> f_le (ts ! m) (ts ! (m + 1))"
    using m(3) by (simp add: neg_series_def f_ge_def f_le_neg)
  moreover have "pos + 1 < length ts \<and> f_le (ts ! pos) (ts ! (pos + 1)) \<longrightarrow> pos < m"
    using m(5) by (simp add: neg_series_def f_ge_def f_le_neg)
  ultimately show ?thesis using m(1,2,4) by (auto simp: neg_series_def)
qed

lemma first_valid_index_Some:
  "first_valid_index i xs = Some j \<Longrightarrow> i \<le> j \<and> j < i + length xs \<and> xs ! (j - i) \<noteq> NaN"
proof (induction i xs rule: first_valid_index.induct)
  case (2 i x xs)
  show ?case
  proof (cases "x = NaN")
    case True
    with 2 have a: "Suc i \<le> j" "j < Suc i + length xs" "xs ! (j - Suc i) \<noteq> NaN" by auto
    from a(1) have "j - i = Suc (j - Suc i)" by arith
    with a show ?thesis by simp
  next
    case False
    with 2 show ?thesis by simp
  qed
qed simp

lemma first_valid_index_None:
  "first_valid_index i xs = None \<Longrightarrow> k < length xs \<Longrightarrow> xs ! k = NaN"
proof (induction i xs arbitrary: k rule: first_valid_index.induct)
  case (2 i x xs)
  then show ?case by (cases k) (auto split: if_splits)
qed simp

lemma where_series_nth:
  "k < length xs \<Longrightarrow> where_series xs (map f xs) ! k = (if f (xs ! k) then xs ! k else NaN)"
  by (simp add: where_series_def)

lemma where_series_length: "length (where_series xs (map f xs)) = length xs"
  by (simp add: where_series_def)

lemma find_next_larger_KeyError:
  "\<not> pos < length ts \<Longrightarrow> find_next_larger ts pos = Inl KeyError"
  by (simp add: find_next_larger_def series_at_def bind_err_def)

lemma find_next_larger_total:
  "pos < length ts \<Longrightarrow> \<exists>r. find_next_larger ts pos = Inr r"
  by (simp add: find_next_larger_def series_at_def bind_err_def)

lemma find_next_larger_Some:
  assumes "find_next_larger ts pos = Inr (Some nl)"
  shows "pos < nl \<and> nl < length ts \<and> f_lt (ts ! pos) (ts ! nl)"
proof -
  have pos: "pos < length ts"
    using assms find_next_larger_KeyError[of pos ts] by auto
  let ?sl = "drop pos ts"
  let ?w = "where_series ?sl (map (\<lambda>v. f_gt v (ts ! pos)) ?sl)"
  from assms pos have fv: "first_valid_index pos ?w = Some nl"
    by (simp add: find_next_larger_def series_at_def bind_err_def slice_def)
  from first_valid_index_Some[OF fv]
  have b: "pos \<le> nl" "nl < pos + length ?sl" "?w ! (nl - pos) \<noteq> NaN"
    by (simp_all add: where_series_length)
  from b(2) have k: "nl - pos < length ?sl" using b(1) by simp
  from b(3) where_series_nth[OF k, of "\<lambda>v. f_gt v (ts ! pos)"]
  have "f_gt (?sl ! (nl - pos)) (ts ! pos)" by (auto split: if_splits)
  with b(1) pos k have gt: "f_lt (ts ! pos) (ts ! nl)" by (simp add: f_gt_def)
  then have "nl \<noteq> pos" using f_lt_irrefl by auto
  with gt show ?thesis using b(1) k by auto
qed

lemma find_next_larger_None:
  assumes "find_next_larger ts pos = Inr None" "pos \<le> i" "i < length ts"
  shows "\<not> f_lt (ts ! pos) (ts ! i)"
proof -
  have pos: "pos < length ts"
    using assms find_next_larger_KeyError[of pos ts] by auto
  let ?sl = "drop pos ts"
  let ?w = "where_series ?sl (map (\<lambda>v. f_gt v (ts ! pos)) ?sl)"
  from assms pos have fv: "first_valid_index pos ?w = None"
    by (simp add: find_next_larger_def series_at_def bind_err_def slice_def)
  have k: "i - pos < length ?sl" using assms by simp
  then have "?w ! (i - pos) = NaN"
    using first_valid_index_None[OF fv, of "i - pos"] by (simp add: where_series_length)
  with where_series_nth[OF k, of "\<lambda>v. f_gt v (ts ! pos)"]
  have "f_gt (?sl ! (i - pos)) (ts ! pos) \<longrightarrow> ?sl ! (i - pos) = NaN" by (auto split: if_splits)
  with assms have "f_lt (ts ! pos) (ts ! i) \<longrightarrow> ts ! i = NaN" by (simp add: f_gt_def)
  then show ?thesis using f_lt_not_NaN by blast
qed

lemma find_next_larger_NoneI:
  assumes "pos < length ts" "\<forall>i. pos \<le> i \<and> i < length ts \<longrightarrow> \<not> f_lt (ts ! pos) (ts ! i)"
  shows "find_next_larger ts pos = Inr None"
proof -
  obtain r where r: "find_next_larger ts pos = Inr r"
    using find_next_larger_total[OF assms(1)] by blast
  show ?thesis
  proof (cases r)
    case None with r show ?thesis by simp
  next
    case (Some nl)
    with r have "find_next_larger ts pos = Inr (Some nl)" by simp
    from find_next_larger_Some[OF this]
    have "pos \<le> nl \<and> nl < length ts" "f_lt (ts ! pos) (ts ! nl)" by auto
    with assms(2) have False by blast
    then show ?thesis ..
  qed
qed

lemma argmin_aux_bound:
  "argmin_aux best bi i xs = bi \<or> (i \<le> argmin_aux best bi i xs \<and> argmin_aux best bi i xs < i + length xs)"
proof (induction xs arbitrary: best bi i)
  case (Cons x xs)
  show ?case
    using Cons.IH[of x i "Suc i"] Cons.IH[of best bi "Suc i"] by auto
qed simp

lemma argmin_result:
  assumes "xs \<noteq> []" "hd xs \<noteq> NaN"
  shows "\<exists>k. argmin xs = Inr k \<and> k < length xs"
proof -
  from assms obtain x rest where xs: "xs = x # rest" "x \<noteq> NaN" by (cases xs) auto
  then have "argmin xs = Inr (argmin_aux x 0 (Suc 0) (fill_na rest))"
    by (simp add: argmin_def fill_na_def)
  moreover have "argmin_aux x 0 (Suc 0) (fill_na rest) < length xs"
    using argmin_aux_bound[of x 0 "Suc 0" "fill_na rest"] xs(1) by (auto simp: fill_na_def)
  ultimately show ?thesis by simp
qed

lemma find_min_result:
  assumes "pos < e" "pos < length ts" "ts ! pos \<noteq> NaN"
  shows "\<exists>ip. find_min ts pos (Some e) = Inr ip \<and> pos \<le> ip \<and> ip < e \<and> ip < length ts"
proof -
  let ?sl = "slice ts pos (Some e)"
  have len: "length ?sl = min (e - pos) (length ts - pos)" by (simp add: slice_def)
  with assms have ne: "?sl \<noteq> []" by auto
  have "hd ?sl = ts ! pos"
    using assms(1,2) by (simp add: slice_def hd_conv_nth hd_drop_conv_nth)
  with assms(3) have "hd ?sl \<noteq> NaN" by simp
  from argmin_result[OF ne this] obtain k where k: "argmin ?sl = Inr k" "k < length ?sl" by blast
  then have "find_min ts pos (Some e) = Inr (k + pos)" by (simp add: find_min_def bind_err_def)
  moreover from k(2) len have "k + pos < e" "k + pos < length ts" by auto
  ultimately show ?thesis by auto
qed

lemma net_positive_pair:
  "a < length ts \<Longrightarrow> b < length ts \<Longrightarrow>
   net_positive ar ts (Scalar p) [a, b] =
     Inr (f_gt (fsub ar (fmul ar (fsub ar (Fin 1) p) (ts ! b)) (fmul ar (fadd ar (Fin 1) p) (ts ! a)))
               (Fin 0))"
  by (simp add: net_positive_def list_at_def series_at_def bind_err_def)

section \<open>One pass of the inner body\<close>

lemma nan_free_nth: "nan_free ts \<Longrightarrow> i < length ts \<Longrightarrow> ts ! i \<noteq> NaN"
  by (auto simp: nan_free_def dest: nth_mem)

lemma regs_inv_mono:
  "regs_inv strict ar ts p bound regs \<Longrightarrow> bound \<le> bound' \<Longrightarrow> regs_inv strict ar ts p bound' regs"
  by (auto simp: regs_inv_def pair_ok_def)

lemma regs_inv_append:
  assumes "regs_inv strict ar ts p a regs" "a \<le> b" "strict \<longrightarrow> a < b" "b < length ts"
    "net_positive ar ts (Scalar p) [a, b] = Inr True"
  shows "regs_inv strict ar ts p b (regs @ [[a, b]])"
proof -
  from assms(1) have old: "\<forall>pr \<in> set regs. pair_ok strict ar ts p a pr"
    and srt: "sorted_wrt (\<lambda>x y. x ! 1 \<le> y ! 0) regs"
    by (simp_all add: regs_inv_def)
  from old assms(2) have "\<forall>pr \<in> set regs. pair_ok strict ar ts p b pr"
    by (auto simp: pair_ok_def)
  moreover from assms(2-5) have "pair_ok strict ar ts p b [a, b]"
    by (simp add: pair_ok_def)
  moreover from old have "\<forall>pr \<in> set regs. pr ! 1 \<le> [a, b] ! 0"
    by (auto simp: pair_ok_def)
  with srt have "sorted_wrt (\<lambda>x y. x ! 1 \<le> y ! 0) (regs @ [[a, b]])"
    by (simp add: sorted_wrt_append)
  ultimately show ?thesis by (simp add: regs_inv_def)
qed

lemma inner_body_inv:
  assumes inv: "inner_inv strict ar ts p s" and guard: "position s + 1 < length ts"
    and nf: "strict \<longrightarrow> nan_free ts"
  shows "(\<exists>s'. inner_body ar ts p s = Inr (Continue s') \<and> inner_inv strict ar ts p s'
               \<and> hd (tmp s) \<le> hd (tmp s'))
       \<or> (\<exists>s'. inner_body ar ts p s = Inr (Break s') \<and> tmp s' = [] \<and> position s' < length ts
               \<and> regs_inv strict ar ts p (position s') (registered_pairs s'))"
proof -
  from inv guard obtain a where a: "tmp s = [a]" "a \<le> position s" "position s < length ts"
      "strict \<and> a = position s \<longrightarrow> f_lt (ts ! a) (ts ! (a + 1))"
      "regs_inv strict ar ts p a (registered_pairs s)"
    by (auto simp: inner_inv_def)
  obtain dp where dp: "find_smaller (neg_series ts) (position s) = Inr dp" "position s \<le> dp"
      "dp + 1 < length ts \<longrightarrow> \<not> f_le (ts ! dp) (ts ! (dp + 1))" "dp < length ts"
      "f_le (ts ! position s) (ts ! (position s + 1)) \<longrightarrow> position s < dp"
    using find_larger_result[of ts "position s"] guard a(3) by blast
  have adp: "a \<le> dp" using a(2) dp(2) by simp
  have sadp: "strict \<longrightarrow> a < dp"
  proof
    assume st: strict
    show "a < dp"
    proof (cases "a = position s")
      case True
      with st a(4) have "f_lt (ts ! position s) (ts ! (position s + 1))" by simp
      then have "f_le (ts ! position s) (ts ! (position s + 1))" by (rule f_lt_imp_le)
      with dp(5) True show ?thesis by simp
    next
      case False
      with a(2) dp(2) show ?thesis by simp
    qed
  qed
  have alen: "a < length ts" using adp dp(4) by simp
  let ?NP = "f_gt (fsub ar (fmul ar (fsub ar (Fin 1) p) (ts ! dp)) (fmul ar (fadd ar (Fin 1) p) (ts ! a)))
                  (Fin 0)"
  let ?s1 = "s\<lparr>position := dp, tmp := [a, dp]\<rparr>"
  have np: "net_positive ar ts (Scalar p) [a, dp] = Inr ?NP"
    using alen dp(4) by (rule net_positive_pair)
  have reg: "?NP \<Longrightarrow> regs_inv strict ar ts p dp (registered_pairs s @ [[a, dp]])"
    using regs_inv_append[OF a(5) adp sadp dp(4)] np by simp
  have keep: "regs_inv strict ar ts p dp (registered_pairs s)"
    using regs_inv_mono[OF a(5) adp] .
  obtain r where r: "find_next_larger ts dp = Inr r"
    using find_next_larger_total[OF dp(4)] by blast
  show ?thesis
  proof (cases r)
    case None
    have "inner_body ar ts p s =
        (if ?NP then Inr (Break (register ?s1)) else Inr (Break (?s1\<lparr>tmp := []\<rparr>)))"
      by (simp add: inner_body_def dp(1) r None np a(1) bind_err_def Let_def)
    then show ?thesis
      using reg keep dp(4) by (cases ?NP) (simp_all add: register_def)
  next
    case (Some nl)
    with r have "find_next_larger ts dp = Inr (Some nl)" by simp
    from find_next_larger_Some[OF this]
    have nl: "dp < nl" "nl < length ts" "f_lt (ts ! dp) (ts ! nl)" by auto
    from nl(3) have "ts ! dp \<noteq> NaN" using f_lt_not_NaN by blast
    from find_min_result[OF nl(1) dp(4) this]
    obtain ip where ip: "find_min ts dp (Some nl) = Inr ip" "ip < length ts" by blast
    let ?PROF = "f_gt (fsub ar (fsub ar (ts ! dp) (ts ! ip)) (fmul ar p (fadd ar (ts ! dp) (ts ! ip))))
                      (Fin 0)"
    have sat: "series_at ts ip = Inr (ts ! ip)"
      using ip(2) by (simp add: series_at_def)
    have cp: "check_profitable ar ts p dp (ts ! ip) = Inr ?PROF"
      using dp(4) by (simp add: check_profitable_def series_at_def bind_err_def)
    from find_smaller_result[of ts dp] dp(4) obtain m where m: "find_smaller ts dp = Inr m"
        "dp \<le> m" "m < length ts" "m + 1 < length ts \<longrightarrow> \<not> f_ge (ts ! m) (ts ! (m + 1))"
      by blast
    have mlt: "strict \<and> m + 1 < length ts \<longrightarrow> f_lt (ts ! m) (ts ! (m + 1))"
    proof
      assume h: "strict \<and> m + 1 < length ts"
      with nf have "ts ! (m + 1) \<noteq> NaN" "ts ! m \<noteq> NaN"
        using nan_free_nth[of ts] m(3) by auto
      moreover from h m(4) have "\<not> f_le (ts ! (m + 1)) (ts ! m)" by (simp add: f_ge_def)
      ultimately show "f_lt (ts ! m) (ts ! (m + 1))" by (rule f_not_le_imp_lt)
    qed
    have ls: "list_set [a, dp] 0 m = Inr [m, dp]" "list_pop [m, dp] (Suc 0) = Inr [m]"
        "list_pop [a, dp] (Suc 0) = Inr [a]"
      by (simp_all add: list_set_def list_pop_def)
    have body: "inner_body ar ts p s =
        (if ?PROF then
           (if ?NP then Inr (Break (register ?s1))
            else Inr (Continue (?s1\<lparr>position := m, tmp := [m]\<rparr>)))
         else Inr (Continue (?s1\<lparr>position := nl, tmp := [a]\<rparr>)))"
      by (simp add: inner_body_def dp(1) r Some ip(1) sat cp np m(1) ls a(1) bind_err_def Let_def)
    show ?thesis
    proof (cases ?PROF)
      case False
      with body have "inner_body ar ts p s = Inr (Continue (?s1\<lparr>position := nl, tmp := [a]\<rparr>))"
        by simp
      moreover have "inner_inv strict ar ts p (?s1\<lparr>position := nl, tmp := [a]\<rparr>)"
        using a(5) adp nl by (simp add: inner_inv_def)
      ultimately show ?thesis using a(1) by simp
    next
      case True
      show ?thesis
      proof (cases ?NP)
        case True
        with \<open>?PROF\<close> body have "inner_body ar ts p s = Inr (Break (register ?s1))" by simp
        then show ?thesis using reg[OF True] dp(4) by (simp add: register_def)
      next
        case False
        with \<open>?PROF\<close> body
        have "inner_body ar ts p s = Inr (Continue (?s1\<lparr>position := m, tmp := [m]\<rparr>))" by simp
        moreover have "regs_inv strict ar ts p m (registered_pairs s)"
          using regs_inv_mono[OF a(5)] adp m(2) by simp
        then have "inner_inv strict ar ts p (?s1\<lparr>position := m, tmp := [m]\<rparr>)"
          using m(3) mlt by (simp add: inner_inv_def)
        ultimately show ?thesis using a(1) adp m(2) by simp
      qed
    qed
  qed
qed

text \<open>Where the cursor goes in one pass of the inner body.\<close>

lemma inner_body_position:
  assumes "inner_body ar ts p s = Inr f" "find_smaller (neg_series ts) (position s) = Inr dp"
  shows "(\<exists>s'. f = Break s' \<and> position s' = dp)
       \<or> (\<exists>s'. f = Continue s' \<and> dp \<le> position s' \<and> dp + 1 < length ts
                \<and> (f_ge (ts ! dp) (ts ! (dp + 1)) \<longrightarrow> dp < position s'))"
proof -
  from assms obtain r where r: "find_next_larger ts dp = Inr r"
    by (auto simp: inner_body_def bind_err_def Let_def split: sum.splits)
  show ?thesis
  proof (cases r)
    case None
    with assms r have "\<exists>s'. f = Break s' \<and> position s' = dp"
      by (auto simp: inner_body_def bind_err_def Let_def register_def split: sum.splits if_splits)
    then show ?thesis ..
  next
    case (Some nl)
    with r have "find_next_larger ts dp = Inr (Some nl)" by simp
    from find_next_larger_Some[OF this] have nl: "dp < nl" "nl < length ts" by auto
    then have d1: "dp + 1 < length ts" by simp
    obtain m where m: "find_smaller ts dp = Inr m" "dp \<le> m"
        "dp + 1 < length ts \<and> f_ge (ts ! dp) (ts ! (dp + 1)) \<longrightarrow> dp < m"
      using find_smaller_result[of ts dp] by blast
    from assms r Some m(1)
    consider (brk) s' where "f = Break s'" "position s' = dp"
      | (refine) s' where "f = Continue s'" "position s' = m"
      | (advance) s' where "f = Continue s'" "position s' = nl"
      by (auto simp: inner_body_def bind_err_def Let_def register_def split: sum.splits if_splits)
    then show ?thesis
    proof cases
      case brk
      then show ?thesis by blast
    next
      case refine
      with m(2,3) d1 have "f = Continue s' \<and> dp \<le> position s' \<and> dp + 1 < length ts
                \<and> (f_ge (ts ! dp) (ts ! (dp + 1)) \<longrightarrow> dp < position s')" by simp
      then show ?thesis by blast
    next
      case advance
      with nl(1) d1 have "f = Continue s' \<and> dp \<le> position s' \<and> dp + 1 < length ts
                \<and> (f_ge (ts ! dp) (ts ! (dp + 1)) \<longrightarrow> dp < position s')" by simp
      then show ?thesis by blast
    qed
  qed
qed

lemma inner_body_progress:
  assumes "nan_free ts" "inner_body ar ts p s = Inr (Continue s')"
  shows "position s < position s'"
proof -
  obtain dp where dp: "find_smaller (neg_series ts) (position s) = Inr dp" "position s \<le> dp"
      "dp + 1 < length ts \<longrightarrow> \<not> f_le (ts ! dp) (ts ! (dp + 1))"
    using find_larger_result[of ts "position s"] by blast
  from inner_body_position[OF assms(2) dp(1)]
  have c: "dp \<le> position s'" "dp + 1 < length ts"
      "f_ge (ts ! dp) (ts ! (dp + 1)) \<longrightarrow> dp < position s'" by auto
  from c(2) assms(1) have "ts ! dp \<noteq> NaN" "ts ! (dp + 1) \<noteq> NaN"
    using nan_free_nth[of ts] by auto
  with dp(3) c(2) have "f_lt (ts ! (dp + 1)) (ts ! dp)" using f_not_le_imp_lt by blast
  then have "f_ge (ts ! dp) (ts ! (dp + 1))" by (simp add: f_ge_def f_lt_imp_le)
  with c(3) dp(2) show ?thesis by simp
qed

section \<open>Progress and return on series without NaN\<close>

lemma inner_loop_position:
  assumes "inner_loop ar ts p s = Some r"
  shows "\<forall>s'. r = Inr s' \<longrightarrow> position s \<le> position s'
           \<and> (position s + 1 < length ts \<and> f_le (ts ! position s) (ts ! (position s + 1))
                \<longrightarrow> position s < position s')"
proof (rule inner_loop.raw_induct[where P = "\<lambda>ar ts p s r. \<forall>s'. r = Inr s' \<longrightarrow> position s \<le> position s'
           \<and> (position s + 1 < length ts \<and> f_le (ts ! position s) (ts ! (position s + 1))
                \<longrightarrow> position s < position s')", OF _ assms])
  fix loop :: "arith \<Rightarrow> sample list \<Rightarrow> sample \<Rightarrow> optitrade \<Rightarrow> (error + optitrade) option"
    and ar ts p s r
  assume IH: "\<And>ar ts p s r. loop ar ts p s = Some r \<Longrightarrow>
        \<forall>s'. r = Inr s' \<longrightarrow> position s \<le> position s'
           \<and> (position s + 1 < length ts \<and> f_le (ts ! position s) (ts ! (position s + 1))
                \<longrightarrow> position s < position s')"
    and eq: "(if position s + 1 < length ts
       then case inner_body ar ts p s of Inl e \<Rightarrow> Some (Inl e)
            | Inr (Continue s') \<Rightarrow> loop ar ts p s'
            | Inr (Break s') \<Rightarrow> Some (Inr s')
       else Some (Inr s)) = Some r"
  show "\<forall>s'. r = Inr s' \<longrightarrow> position s \<le> position s'
           \<and> (position s + 1 < length ts \<and> f_le (ts ! position s) (ts ! (position s + 1))
                \<longrightarrow> position s < position s')"
  proof (cases "position s + 1 < length ts")
    case False
    with eq show ?thesis by auto
  next
    case True
    obtain dp where dp: "find_smaller (neg_series ts) (position s) = Inr dp" "position s \<le> dp"
        "position s + 1 < length ts \<and> f_le (ts ! position s) (ts ! (position s + 1)) \<longrightarrow> position s < dp"
      using find_larger_result[of ts "position s"] by blast
    show ?thesis
    proof (cases "inner_body ar ts p s")
      case (Inl e)
      with True eq show ?thesis by auto
    next
      case (Inr f)
      from inner_body_position[OF Inr dp(1)] show ?thesis
      proof (elim disjE exE conjE)
        fix s1 assume b: "f = Break s1" "position s1 = dp"
        with Inr True eq have "r = Inr s1" by simp
        with b dp show ?thesis by simp
      next
        fix s1 assume c: "f = Continue s1" "dp \<le> position s1"
        with Inr True eq have "loop ar ts p s1 = Some r" by simp
        from IH[OF this] have "\<forall>s'. r = Inr s' \<longrightarrow> position s1 \<le> position s'" by blast
        with c(2) dp show ?thesis by auto
      qed
    qed
  qed
qed

lemma inner_loop_total:
  assumes "nan_free ts"
  shows "\<exists>r. inner_loop ar ts p s = Some r"
proof (induction "length ts - position s" arbitrary: s rule: less_induct)
  case less
  show ?case
  proof (cases "position s + 1 < length ts")
    case False
    then show ?thesis by (subst inner_loop.simps) simp
  next
    case True
    show ?thesis
    proof (cases "inner_body ar ts p s")
      case (Inl e)
      with True show ?thesis by (subst inner_loop.simps) simp
    next
      case (Inr f)
      show ?thesis
      proof (cases f)
        case (Break s1)
        with Inr True show ?thesis by (subst inner_loop.simps) simp
      next
        case (Continue s1)
        with Inr have "position s < position s1"
          using inner_body_progress[OF assms] by simp
        with True have "length ts - position s1 < length ts - position s" by simp
        from less[OF this] obtain r where "inner_loop ar ts p s1 = Some r" by blast
        with Inr Continue True show ?thesis by (subst inner_loop.simps) simp
      qed
    qed
  qed
qed

lemma outer_body_progress:
  assumes "nan_free ts" "position s + 1 < length ts" "outer_body ar ts p s = Some (Inr s')"
  shows "position s < position s'"
proof -
  obtain a where a: "find_smaller ts (position s) = Inr a" "position s \<le> a"
      "a + 1 < length ts \<longrightarrow> \<not> f_ge (ts ! a) (ts ! (a + 1))"
    using find_smaller_result[of ts "position s"] by blast
  let ?s1 = "s\<lparr>position := a, tmp := tmp s @ [a]\<rparr>"
  from assms(3) a(1) have il: "inner_loop ar ts p ?s1 = Some (Inr s')"
    by (simp add: outer_body_def)
  show ?thesis
  proof (cases "a + 1 < length ts")
    case True
    with assms(1) have "ts ! a \<noteq> NaN" "ts ! (a + 1) \<noteq> NaN"
      using nan_free_nth[of ts] by auto
    moreover from True a(3) have "\<not> f_le (ts ! (a + 1)) (ts ! a)" by (simp add: f_ge_def)
    ultimately have "f_lt (ts ! a) (ts ! (a + 1))" using f_not_le_imp_lt by blast
    then have "f_le (ts ! a) (ts ! (a + 1))" by (rule f_lt_imp_le)
    with inner_loop_position[OF il] True have "a < position s'" by simp
    with a(2) show ?thesis by simp
  next
    case False
    with il have "s' = ?s1" by (subst (asm) inner_loop.simps) simp
    with False assms(2) show ?thesis by simp
  qed
qed

lemma outer_loop_total:
  assumes "nan_free ts"
  shows "\<exists>r. outer_loop ar ts p s = Some r"
proof (induction "length ts - position s" arbitrary: s rule: less_induct)
  case less
  show ?case
  proof (cases "position s + 1 < length ts")
    case False
    then show ?thesis by (subst outer_loop.simps) simp
  next
    case True
    obtain a where a: "find_smaller ts (position s) = Inr a"
      using find_smaller_result[of ts "position s"] by blast
    from inner_loop_total[OF assms, of ar p "s\<lparr>position := a, tmp := tmp s @ [a]\<rparr>"]
    obtain r1 where "inner_loop ar ts p (s\<lparr>position := a, tmp := tmp s @ [a]\<rparr>) = Some r1"
      by blast
    with a have r1: "outer_body ar ts p s = Some r1" by (simp add: outer_body_def)
    show ?thesis
    proof (cases r1)
      case (Inl e)
      with r1 True show ?thesis by (subst outer_loop.simps) simp
    next
      case (Inr s1)
      with r1 have "position s < position s1"
        using outer_body_progress[OF assms True] by simp
      with True have "length ts - position s1 < length ts - position s" by simp
      from less[OF this] obtain r where "outer_loop ar ts p s1 = Some r" by blast
      with r1 Inr True show ?thesis by (subst outer_loop.simps) simp
    qed
  qed
qed

section \<open>The invariants hold whenever the loops return\<close>

lemma inner_loop_inv:
  assumes "inner_loop ar ts p s = Some r"
  shows "inner_inv strict ar ts p s \<longrightarrow> (strict \<longrightarrow> nan_free ts)
           \<longrightarrow> (\<exists>s'. r = Inr s' \<and> outer_inv strict ar ts p s')"
proof (rule inner_loop.raw_induct[where P = "\<lambda>ar ts p s r.
         inner_inv strict ar ts p s \<longrightarrow> (strict \<longrightarrow> nan_free ts)
           \<longrightarrow> (\<exists>s'. r = Inr s' \<and> outer_inv strict ar ts p s')", OF _ assms], intro impI)
  fix loop :: "arith \<Rightarrow> sample list \<Rightarrow> sample \<Rightarrow> optitrade \<Rightarrow> (error + optitrade) option"
    and ar ts p s r
  assume IH: "\<And>ar ts p s r. loop ar ts p s = Some r \<Longrightarrow>
        inner_inv strict ar ts p s \<longrightarrow> (strict \<longrightarrow> nan_free ts)
           \<longrightarrow> (\<exists>s'. r = Inr s' \<and> outer_inv strict ar ts p s')"
    and eq: "(if position s + 1 < length ts
       then case inner_body ar ts p s of Inl e \<Rightarrow> Some (Inl e)
            | Inr (Continue s') \<Rightarrow> loop ar ts p s'
            | Inr (Break s') \<Rightarrow> Some (Inr s')
       else Some (Inr s)) = Some r"
    and inv: "inner_inv strict ar ts p s" and nf: "strict \<longrightarrow> nan_free ts"
  show "\<exists>s'. r = Inr s' \<and> outer_inv strict ar ts p s'"
  proof (cases "position s + 1 < length ts")
    case False
    with eq have "r = Inr s" by simp
    moreover from inv False have "outer_inv strict ar ts p s"
      by (auto simp: inner_inv_def outer_inv_def intro: regs_inv_mono)
    ultimately show ?thesis by simp
  next
    case True
    from inner_body_inv[OF inv True nf] show ?thesis
    proof (elim disjE exE conjE)
      fix s1 assume b: "inner_body ar ts p s = Inr (Continue s1)" "inner_inv strict ar ts p s1"
      with True eq have "loop ar ts p s1 = Some r" by simp
      from IH[OF this] b(2) nf show ?thesis by blast
    next
      fix s1 assume b: "inner_body ar ts p s = Inr (Break s1)" "tmp s1 = []"
        "position s1 < length ts" "regs_inv strict ar ts p (position s1) (registered_pairs s1)"
      then have "outer_inv strict ar ts p s1" by (simp add: outer_inv_def)
      moreover from True eq b(1) have "r = Inr s1" by simp
      ultimately show ?thesis by blast
    qed
  qed
qed

lemma outer_body_inv:
  assumes "outer_inv strict ar ts p s" "position s + 1 < length ts" "strict \<longrightarrow> nan_free ts"
    "outer_body ar ts p s = Some r"
  shows "\<exists>s'. r = Inr s' \<and> outer_inv strict ar ts p s'"
proof -
  from assms(1,2) have e: "tmp s = []"
    and rg: "regs_inv strict ar ts p (position s) (registered_pairs s)"
    by (simp_all add: outer_inv_def)
  obtain a where a: "find_smaller ts (position s) = Inr a" "position s \<le> a"
      "a + 1 < length ts \<longrightarrow> \<not> f_ge (ts ! a) (ts ! (a + 1))" "a < length ts"
    using find_smaller_result[of ts "position s"] assms(2) by auto
  have lt: "strict \<and> a + 1 < length ts \<longrightarrow> f_lt (ts ! a) (ts ! (a + 1))"
  proof
    assume h: "strict \<and> a + 1 < length ts"
    with assms(3) have "ts ! (a + 1) \<noteq> NaN" "ts ! a \<noteq> NaN"
      using nan_free_nth[of ts] a(4) by auto
    moreover from h a(3) have "\<not> f_le (ts ! (a + 1)) (ts ! a)" by (simp add: f_ge_def)
    ultimately show "f_lt (ts ! a) (ts ! (a + 1))" by (rule f_not_le_imp_lt)
  qed
  let ?s1 = "s\<lparr>position := a, tmp := tmp s @ [a]\<rparr>"
  have "inner_inv strict ar ts p ?s1"
    using e a(4) lt regs_inv_mono[OF rg a(2)] by (simp add: inner_inv_def)
  moreover from assms(4) a(1) have "inner_loop ar ts p ?s1 = Some r"
    by (simp add: outer_body_def)
  ultimately show ?thesis using inner_loop_inv[of ar ts p ?s1 r strict] assms(3) by blast
qed

lemma outer_loop_inv:
  assumes "outer_loop ar ts p s = Some r"
  shows "outer_inv strict ar ts p s \<longrightarrow> (strict \<longrightarrow> nan_free ts)
           \<longrightarrow> (\<exists>s'. r = Inr s' \<and> outer_inv strict ar ts p s' \<and> \<not> position s' + 1 < length ts)"
proof (rule outer_loop.raw_induct[where P = "\<lambda>ar ts p s r.
         outer_inv strict ar ts p s \<longrightarrow> (strict \<longrightarrow> nan_free ts)
           \<longrightarrow> (\<exists>s'. r = Inr s' \<and> outer_inv strict ar ts p s' \<and> \<not> position s' + 1 < length ts)",
         OF _ assms], intro impI)
  fix loop :: "arith \<Rightarrow> sample list \<Rightarrow> sample \<Rightarrow> optitrade \<Rightarrow> (error + optitrade) option"
    and ar ts p s r
  assume IH: "\<And>ar ts p s r. loop ar ts p s = Some r \<Longrightarrow>
        outer_inv strict ar ts p s \<longrightarrow> (strict \<longrightarrow> nan_free ts)
           \<longrightarrow> (\<exists>s'. r = Inr s' \<and> outer_inv strict ar ts p s' \<and> \<not> position s' + 1 < length ts)"
    and eq: "(if position s + 1 < length ts
       then case outer_body ar ts p s of None \<Rightarrow> None
            | Some (Inl e) \<Rightarrow> Some (Inl e)
            | Some (Inr s') \<Rightarrow> loop ar ts p s'
       else Some (Inr s)) = Some r"
    and inv: "outer_inv strict ar ts p s" and nf: "strict \<longrightarrow> nan_free ts"
  show "\<exists>s'. r = Inr s' \<and> outer_inv strict ar ts p s' \<and> \<not> position s' + 1 < length ts"
  proof (cases "position s + 1 < length ts")
    case False
    with eq inv show ?thesis by auto
  next
    case True
    with eq obtain r1 where r1: "outer_body ar ts p s = Some r1"
      by (cases "outer_body ar ts p s") auto
    from outer_body_inv[OF inv True nf r1] obtain s1 where
      s1: "r1 = Inr s1" "outer_inv strict ar ts p s1" by blast
    with True eq r1 have "loop ar ts p s1 = Some r" by simp
    from IH[OF this] s1(2) nf show ?thesis by blast
  qed
qed

lemma fresh_outer_inv:
  "outer_inv strict ar ts p \<lparr>position = 0, tmp = [], registered_pairs = []\<rparr>"
  by (simp add: outer_inv_def regs_inv_def)

lemma find_optimal_pairs_partial:
  assumes "find_optimal_pairs ar ts p = Some r" "strict \<longrightarrow> nan_free ts"
  shows "\<exists>s. r = Inr s \<and> outer_inv strict ar ts p s \<and> \<not> position s + 1 < length ts"
proof -
  from assms(1)
  have "outer_loop ar ts p \<lparr>position = 0, tmp = [], registered_pairs = []\<rparr> = Some r"
    by (simp add: find_optimal_pairs_def OptiTrade_init_def)
  from outer_loop_inv[OF this, of strict] fresh_outer_inv assms(2) show ?thesis by blast
qed

lemma find_optimal_pairs_total:
  assumes "nan_free ts"
  shows "\<exists>s. find_optimal_pairs ar ts p = Some (Inr s) \<and> outer_inv True ar ts p s
            \<and> \<not> position s + 1 < length ts"
proof -
  from outer_loop_total[OF assms, of ar p "\<lparr>position = 0, tmp = [], registered_pairs = []\<rparr>"]
  obtain r where "outer_loop ar ts p \<lparr>position = 0, tmp = [], registered_pairs = []\<rparr> = Some r"
    by blast
  then have r: "find_optimal_pairs ar ts p = Some r"
    by (simp add: find_optimal_pairs_def OptiTrade_init_def)
  from find_optimal_pairs_partial[OF r, of True] assms r show ?thesis by auto
qed

section \<open>Runs on concrete series\<close>

text \<open>The definitions a run on a concrete series unfolds.\<close>

lemmas body_defs = OptiTrade_init_def bind_err_def outer_body_def
  inner_loop.simps inner_body_def find_smaller.simps series_at_def neg_series_def find_next_larger_def
  slice_def where_series_def find_min_def argmin_def fill_na_def check_profitable_def net_positive_def
  list_at_def list_set_def list_pop_def register_def Let_def exact_def ex_sub_def f_ge_def f_gt_def

lemmas eval_defs = find_optimal_pairs_def outer_loop.simps body_defs

lemma scenario_a_run:
  "find_optimal_pairs exact (map Fin scenario_a) (Fin 0.0025)
     = Some (Inr \<lparr>position = 8, tmp = [8], registered_pairs = [[1, 5], [6, 7]]\<rparr>)"
  by (simp add: scenario_a_def eval_defs)

lemma scenario_a_nan_free: "nan_free (map Fin scenario_a)"
  by (simp add: nan_free_def scenario_a_def)

lemma refine_run:
  "inner_body exact [Fin 100, Fin 101, Fin 10, Fin 110] (Fin 0.01)
       \<lparr>position = 0, tmp = [0], registered_pairs = []\<rparr>
     = Inr (Continue \<lparr>position = 2, tmp = [2], registered_pairs = []\<rparr>)"
  by (simp add: body_defs)

lemma nan_pass:
  "outer_body exact [NaN, Fin 1] (Fin (1 / 10)) \<lparr>position = 0, tmp = [], registered_pairs = []\<rparr>
     = Some (Inr \<lparr>position = 0, tmp = [], registered_pairs = []\<rparr>)"
  by (simp add: body_defs)

lemma nan_loop:
  "outer_loop exact [NaN, Fin 1] (Fin (1 / 10)) \<lparr>position = 0, tmp = [], registered_pairs = []\<rparr> = None"
proof (rule ccontr)
  let ?s0 = "\<lparr>position = 0, tmp = [], registered_pairs = []\<rparr>"
  assume "outer_loop exact [NaN, Fin 1] (Fin (1 / 10)) ?s0 \<noteq> None"
  then obtain y where y: "outer_loop exact [NaN, Fin 1] (Fin (1 / 10)) ?s0 = Some y" by auto
  have "\<not> (exact = exact \<and> [NaN, Fin 1] = [NaN, Fin 1] \<and> Fin (1 / 10) = Fin (1 / 10) \<and> ?s0 = ?s0)"
  proof (rule outer_loop.raw_induct[where P = "\<lambda>ar ts p s r.
      \<not> (ar = exact \<and> ts = [NaN, Fin 1] \<and> p = Fin (1 / 10) \<and> s = ?s0)", OF _ y])
    fix loop :: "arith \<Rightarrow> sample list \<Rightarrow> sample \<Rightarrow> optitrade \<Rightarrow> (error + optitrade) option"
      and ar ts p s r
    assume IH: "\<And>ar ts p s r. loop ar ts p s = Some r \<Longrightarrow>
          \<not> (ar = exact \<and> ts = [NaN, Fin 1] \<and> p = Fin (1 / 10) \<and> s = ?s0)"
      and eq: "(if position s + 1 < length ts
         then case outer_body ar ts p s of None \<Rightarrow> None
              | Some (Inl e) \<Rightarrow> Some (Inl e)
              | Some (Inr s') \<Rightarrow> loop ar ts p s'
         else Some (Inr s)) = Some r"
    show "\<not> (ar = exact \<and> ts = [NaN, Fin 1] \<and> p = Fin (1 / 10) \<and> s = ?s0)"
    proof
      assume bad: "ar = exact \<and> ts = [NaN, Fin 1] \<and> p = Fin (1 / 10) \<and> s = ?s0"
      with eq nan_pass have "loop exact [NaN, Fin 1] (Fin (1 / 10)) ?s0 = Some r" by simp
      from IH[OF this] show False by simp
    qed
  qed
  then show False by simp
qed

lemma all_below_run:
  "find_optimal_pairs exact [Fin 1, Fin 2] (Fin 1)
     = Some (Inr \<lparr>position = 1, tmp = [], registered_pairs = []\<rparr>)"
  by (simp add: eval_defs)

section \<open>The refined opt-in and increasing series\<close>

lemma inner_body_continue_buffer:
  assumes "inner_body ar ts p s = Inr (Continue s')" "tmp s = [a]" "a \<le> position s"
  shows "\<exists>a'. tmp s' = [a'] \<and> a \<le> a' \<and> a' \<le> position s'"
proof -
  obtain dp where dp: "find_smaller (neg_series ts) (position s) = Inr dp" "position s \<le> dp"
    using find_larger_result[of ts "position s"] by blast
  from assms(1) dp(1) obtain r where r: "find_next_larger ts dp = Inr r"
    by (auto simp: inner_body_def bind_err_def Let_def split: sum.splits)
  show ?thesis
  proof (cases r)
    case None
    with assms(1) dp(1) r have False
      by (auto simp: inner_body_def bind_err_def Let_def split: sum.splits if_splits)
    then show ?thesis ..
  next
    case (Some nl)
    with r have "find_next_larger ts dp = Inr (Some nl)" by simp
    from find_next_larger_Some[OF this] have nl: "dp < nl" by simp
    obtain m where m: "find_smaller ts dp = Inr m" "dp \<le> m"
      using find_smaller_result[of ts dp] by blast
    from assms(1,2) dp(1) r Some m(1)
    have "(position s' = m \<and> tmp s' = [m]) \<or> (position s' = nl \<and> tmp s' = [a])"
      by (auto simp: inner_body_def bind_err_def Let_def list_set_def list_pop_def
               split: sum.splits if_splits)
    with m(2) nl dp(2) assms(3) show ?thesis by auto
  qed
qed

lemma find_larger_increasing:
  assumes "sorted_wrt f_lt ts" "pos < length ts"
  shows "find_smaller (neg_series ts) pos = Inr (length ts - 1)"
proof -
  obtain m where m: "find_smaller (neg_series ts) pos = Inr m"
      "m + 1 < length ts \<longrightarrow> \<not> f_le (ts ! m) (ts ! (m + 1))" "m < length ts"
    using find_larger_result[of ts pos] assms(2) by blast
  have "\<not> m + 1 < length ts"
  proof
    assume l: "m + 1 < length ts"
    with assms(1) have "f_lt (ts ! m) (ts ! (m + 1))" by (simp add: sorted_wrt_nth_less)
    then have "f_le (ts ! m) (ts ! (m + 1))" by (rule f_lt_imp_le)
    with m(2) l show False by simp
  qed
  with m(3) have "m = length ts - 1" by arith
  with m(1) show ?thesis by simp
qed

lemma increasing_run:
  assumes len: "2 \<le> length ts" and inc: "sorted_wrt f_lt ts"
  shows "find_optimal_pairs ar ts p =
     Some (Inr \<lparr>position = length ts - 1, tmp = [],
          registered_pairs =
            (if f_gt (fsub ar (fmul ar (fsub ar (Fin 1) p) (ts ! (length ts - 1)))
                              (fmul ar (fadd ar (Fin 1) p) (ts ! 0))) (Fin 0)
             then [[0, length ts - 1]] else [])\<rparr>)"
proof -
  define n where "n = length ts - 1"
  with len have n: "n < length ts" "\<not> n + 1 < length ts" "0 < n" by arith+
  let ?NP = "f_gt (fsub ar (fmul ar (fsub ar (Fin 1) p) (ts ! n))
                              (fmul ar (fadd ar (Fin 1) p) (ts ! 0))) (Fin 0)"
  let ?s0 = "\<lparr>position = 0, tmp = [], registered_pairs = []\<rparr>"
  let ?s1 = "\<lparr>position = 0, tmp = [0], registered_pairs = []\<rparr>"
  let ?s2 = "\<lparr>position = n, tmp = [], registered_pairs = (if ?NP then [[0, n]] else [])\<rparr>"
  from n have pos0: "0 < length ts" and guard: "0 + 1 < length ts" by arith+
  from guard inc have "f_lt (ts ! 0) (ts ! (0 + 1))" by (simp add: sorted_wrt_nth_less)
  then have "\<not> f_ge (ts ! 0) (ts ! (0 + 1))" by (simp add: f_ge_def f_lt_not_le)
  then have fs: "find_smaller ts 0 = Inr 0" by (simp add: find_smaller_stop)
  have fl: "find_smaller (neg_series ts) 0 = Inr n"
    using find_larger_increasing[OF inc pos0] by (simp add: n_def)
  have fnl: "find_next_larger ts n = Inr None"
  proof (rule find_next_larger_NoneI[OF n(1)], intro allI impI)
    fix i assume "n \<le> i \<and> i < length ts"
    with n(2) have "i = n" by arith
    then show "\<not> f_lt (ts ! n) (ts ! i)" by (simp add: f_lt_irrefl)
  qed
  have np: "net_positive ar ts (Scalar p) [0, n] = Inr ?NP"
    using pos0 n(1) by (rule net_positive_pair)
  have body: "inner_body ar ts p ?s1 = Inr (Break ?s2)"
    by (simp add: inner_body_def fl fnl np bind_err_def register_def Let_def)
  have "inner_loop ar ts p ?s1 = Some (Inr ?s2)"
    using guard body by (subst inner_loop.simps) simp
  then have "outer_body ar ts p ?s0 = Some (Inr ?s2)"
    by (simp add: outer_body_def fs)
  moreover have "outer_loop ar ts p ?s2 = Some (Inr ?s2)"
    using n(2) by (subst outer_loop.simps) simp
  ultimately have "outer_loop ar ts p ?s0 = Some (Inr ?s2)"
    using guard by (subst outer_loop.simps) simp
  then show ?thesis
    by (simp add: find_optimal_pairs_def OptiTrade_init_def n_def)
qed

section \<open>The claims\<close>

text \<open>
  Claim C1. Every pair \<open>[a, b]\<close> the scan appends to the registry is claimed to satisfy
  \<open>a < b\<close>, for every series. On the series \<open>[-1.0, nan]\<close> with penalty \<open>0.5\<close> the
  constructor gives the fresh state, the test of the outer loop holds, and the first
  pass of the outer loop appends the pair \<open>[0, 0]\<close>: neither \<^verbatim>\<open>find_smaller\<close> nor its
  mirror leaves index 0, because every comparison with NaN is false. All values of this
  run are binary fractions, so the double arithmetic is exact on it.
\<close>

theorem pair_with_equal_indices:
  "OptiTrade_init [Fin (- 1), NaN] (Scalar (Fin (1 / 2)))
     = Inr ([Fin (- 1), NaN], Scalar (Fin (1 / 2)),
            \<lparr>position = 0, tmp = [], registered_pairs = []\<rparr>)
   \<and> position \<lparr>position = 0, tmp = [], registered_pairs = []\<rparr> + 1 < length [Fin (- 1), NaN]
   \<and> outer_body exact [Fin (- 1), NaN] (Fin (1 / 2))
          \<lparr>position = 0, tmp = [], registered_pairs = []\<rparr>
        = Some (Inr \<lparr>position = 0, tmp = [], registered_pairs = [[0, 0]]\<rparr>)
   \<and> \<not> (0 :: nat) < 0"
  by (simp add: body_defs)

text \<open>
  Claim C1, for series without NaN. For every such series, every scalar penalty and every
  arithmetic, the scan returns, every registered pair is a two-element list \<open>[a, b]\<close>
  with \<open>a < b\<close>, and consecutive pairs do not overlap: the opt-out of a pair is not after
  the opt-in of the next one.
\<close>

theorem registered_pairs_ordered:
  assumes "nan_free ts"
  shows "\<exists>s. find_optimal_pairs ar ts p = Some (Inr s)
     \<and> (\<forall>pr \<in> set (registered_pairs s). \<exists>a b. pr = [a, b] \<and> a < b)
     \<and> (\<forall>i. i + 1 < length (registered_pairs s) \<longrightarrow>
            registered_pairs s ! i ! 1 \<le> registered_pairs s ! (i + 1) ! 0)"
proof -
  obtain s where s: "find_optimal_pairs ar ts p = Some (Inr s)" "outer_inv True ar ts p s"
    using find_optimal_pairs_total[OF assms, of ar p] by blast
  then have ri: "regs_inv True ar ts p (position s) (registered_pairs s)"
    by (simp add: outer_inv_def)
  then have "\<forall>pr \<in> set (registered_pairs s). \<exists>a b. pr = [a, b] \<and> a < b"
    by (auto simp: regs_inv_def pair_ok_def)
  moreover from ri have "sorted_wrt (\<lambda>x y. x ! 1 \<le> y ! 0) (registered_pairs s)"
    by (simp add: regs_inv_def)
  then have "\<forall>i. i + 1 < length (registered_pairs s) \<longrightarrow>
            registered_pairs s ! i ! 1 \<le> registered_pairs s ! (i + 1) ! 0"
    by (simp add: sorted_wrt_iff_nth_less)
  ultimately show ?thesis using s(1) by blast
qed

theorem registered_pairs_ordered_witness:
  "nan_free (map Fin scenario_a)
   \<and> (\<exists>s. find_optimal_pairs exact (map Fin scenario_a) (Fin 0.0025) = Some (Inr s)
     \<and> [1, 5] \<in> set (registered_pairs s) \<and> (\<exists>a b. [1, 5 :: nat] = [a, b] \<and> a < b)
     \<and> 0 + 1 < length (registered_pairs s)
     \<and> registered_pairs s ! 0 ! 1 \<le> registered_pairs s ! (0 + 1) ! 0)"
  using registered_pairs_ordered[OF scenario_a_nan_free, of exact "Fin 0.0025"]
    scenario_a_run scenario_a_nan_free by simp

text \<open>
  Claim C2. Whenever the scan returns, it returns without an error and every registered
  pair \<open>[a, b]\<close> passed the test of \<^verbatim>\<open>net_positive\<close> under the penalty of the scan: the
  value \<open>(1 - p) * ts[b] - (1 + p) * ts[a]\<close>, as the arithmetic of the machine computes
  it, is greater than 0. So when that test fails on every pair of indices, nothing is
  registered. On a series without NaN the scan does return.
\<close>

theorem registered_pairs_net_positive:
  "(\<forall>r. find_optimal_pairs ar ts p = Some r \<longrightarrow>
      (\<exists>s. r = Inr s
        \<and> (\<forall>pr \<in> set (registered_pairs s). \<exists>a b. pr = [a, b] \<and> a < length ts \<and> b < length ts
              \<and> net_positive ar ts (Scalar p) pr = Inr True
              \<and> f_gt (fsub ar (fmul ar (fsub ar (Fin 1) p) (ts ! b))
                               (fmul ar (fadd ar (Fin 1) p) (ts ! a))) (Fin 0))
        \<and> ((\<forall>a b. a < length ts \<and> b < length ts \<longrightarrow>
                \<not> f_gt (fsub ar (fmul ar (fsub ar (Fin 1) p) (ts ! b))
                                 (fmul ar (fadd ar (Fin 1) p) (ts ! a))) (Fin 0))
              \<longrightarrow> registered_pairs s = [])))
   \<and> (nan_free ts \<longrightarrow> (\<exists>s. find_optimal_pairs ar ts p = Some (Inr s)))"
proof (intro conjI allI impI)
  fix r assume r: "find_optimal_pairs ar ts p = Some r"
  from find_optimal_pairs_partial[OF r, of False]
  obtain s where s: "r = Inr s" "outer_inv False ar ts p s" by auto
  then have ok: "\<forall>pr \<in> set (registered_pairs s). pair_ok False ar ts p (position s) pr"
    by (simp add: outer_inv_def regs_inv_def)
  have each: "\<forall>pr \<in> set (registered_pairs s). \<exists>a b. pr = [a, b] \<and> a < length ts \<and> b < length ts
              \<and> net_positive ar ts (Scalar p) pr = Inr True
              \<and> f_gt (fsub ar (fmul ar (fsub ar (Fin 1) p) (ts ! b))
                               (fmul ar (fadd ar (Fin 1) p) (ts ! a))) (Fin 0)"
  proof
    fix pr assume "pr \<in> set (registered_pairs s)"
    with ok obtain a b where ab: "pr = [a, b]" "a \<le> b" "b < length ts"
        "net_positive ar ts (Scalar p) [a, b] = Inr True"
      by (auto simp: pair_ok_def)
    then have al: "a < length ts" by simp
    from ab(4) net_positive_pair[OF al ab(3), of ar p]
    have "f_gt (fsub ar (fmul ar (fsub ar (Fin 1) p) (ts ! b))
                               (fmul ar (fadd ar (Fin 1) p) (ts ! a))) (Fin 0)" by simp
    with ab al show "\<exists>a b. pr = [a, b] \<and> a < length ts \<and> b < length ts
              \<and> net_positive ar ts (Scalar p) pr = Inr True
              \<and> f_gt (fsub ar (fmul ar (fsub ar (Fin 1) p) (ts ! b))
                               (fmul ar (fadd ar (Fin 1) p) (ts ! a))) (Fin 0)"
      by blast
  qed
  have none: "registered_pairs s = []"
    if no: "\<forall>a b. a < length ts \<and> b < length ts \<longrightarrow>
                \<not> f_gt (fsub ar (fmul ar (fsub ar (Fin 1) p) (ts ! b))
                                 (fmul ar (fadd ar (Fin 1) p) (ts ! a))) (Fin 0)"
  proof (rule ccontr)
    assume "registered_pairs s \<noteq> []"
    then obtain pr where "pr \<in> set (registered_pairs s)" by (cases "registered_pairs s") auto
    with each obtain a b where "a < length ts" "b < length ts"
        "f_gt (fsub ar (fmul ar (fsub ar (Fin 1) p) (ts ! b))
                               (fmul ar (fadd ar (Fin 1) p) (ts ! a))) (Fin 0)"
      by blast
    with no show False by blast
  qed
  from s(1) each none
  show "\<exists>s. r = Inr s
        \<and> (\<forall>pr \<in> set (registered_pairs s). \<exists>a b. pr = [a, b] \<and> a < length ts \<and> b < length ts
              \<and> net_positive ar ts (Scalar p) pr = Inr True
              \<and> f_gt (fsub ar (fmul ar (fsub ar (Fin 1) p) (ts ! b))
                               (fmul ar (fadd ar (Fin 1) p) (ts ! a))) (Fin 0))
        \<and> ((\<forall>a b. a < length ts \<and> b < length ts \<longrightarrow>
                \<not> f_gt (fsub ar (fmul ar (fsub ar (Fin 1) p) (ts ! b))
                                 (fmul ar (fadd ar (Fin 1) p) (ts ! a))) (Fin 0))
              \<longrightarrow> registered_pairs s = [])"
    by blast
next
  assume "nan_free ts"
  from find_optimal_pairs_total[OF this, of ar p]
  show "\<exists>s. find_optimal_pairs ar ts p = Some (Inr s)" by blast
qed

theorem registered_pairs_net_positive_witness:
  "(\<exists>s. find_optimal_pairs exact (map Fin scenario_a) (Fin 0.0025) = Some (Inr s)
      \<and> [1, 5] \<in> set (registered_pairs s)
      \<and> net_positive exact (map Fin scenario_a) (Scalar (Fin 0.0025)) [1, 5] = Inr True)
   \<and> \<not> f_gt (fsub exact (fmul exact (fsub exact (Fin 1) (Fin 1)) (Fin 2))
                         (fmul exact (fadd exact (Fin 1) (Fin 1)) (Fin 1))) (Fin 0)
   \<and> (\<exists>s. find_optimal_pairs exact [Fin 1, Fin 2] (Fin 1) = Some (Inr s) \<and> registered_pairs s = [])
   \<and> nan_free [Fin 1, Fin 2]"
proof -
  have h: "\<forall>a b. a < length [Fin 1, Fin 2] \<and> b < length [Fin 1, Fin 2] \<longrightarrow>
      \<not> f_gt (fsub exact (fmul exact (fsub exact (Fin 1) (Fin 1)) ([Fin 1, Fin 2] ! b))
                         (fmul exact (fadd exact (Fin 1) (Fin 1)) ([Fin 1, Fin 2] ! a))) (Fin 0)"
    by (auto simp: less_Suc_eq numeral_2_eq_2 exact_def ex_sub_def f_gt_def)
  have nf: "nan_free [Fin 1, Fin 2]" by (simp add: nan_free_def)
  from registered_pairs_net_positive[of exact "map Fin scenario_a" "Fin 0.0025"] scenario_a_run
  have a: "\<exists>s. find_optimal_pairs exact (map Fin scenario_a) (Fin 0.0025) = Some (Inr s)
      \<and> [1, 5] \<in> set (registered_pairs s)
      \<and> net_positive exact (map Fin scenario_a) (Scalar (Fin 0.0025)) [1, 5] = Inr True"
    by auto
  from registered_pairs_net_positive[of exact "[Fin 1, Fin 2]" "Fin 1"] all_below_run h
  have b: "\<exists>s. find_optimal_pairs exact [Fin 1, Fin 2] (Fin 1) = Some (Inr s) \<and> registered_pairs s = []"
    by auto
  have c: "\<not> f_gt (fsub exact (fmul exact (fsub exact (Fin 1) (Fin 1)) (Fin 2))
                         (fmul exact (fadd exact (Fin 1) (Fin 1)) (Fin 1))) (Fin 0)"
    by (simp add: exact_def ex_sub_def f_gt_def)
  from a b c nf show ?thesis by blast
qed

text \<open>
  Claim C3. The scan is claimed to terminate on every finite series. On the series
  \<open>[nan, 1.0]\<close> with penalty \<open>0.1\<close> it does not return: each pass of the outer loop
  leaves the cursor at 0 and the buffer empty.
\<close>

theorem scan_never_returns_on_nan:
  "find_optimal_pairs exact [NaN, Fin 1] (Fin (1 / 10)) = None"
  using nan_loop by (simp add: find_optimal_pairs_def OptiTrade_init_def)

text \<open>
  Claim C3, for series without NaN. On every such series the scan returns, and a pass
  through the body of the inner loop that does not break moves the cursor strictly
  forward. When the buffer holds an opt-in that is not after the cursor, the buffer after
  such a pass holds an opt-in at or after the previous one and not after the new cursor.
\<close>

theorem find_optimal_pairs_terminates:
  assumes "nan_free ts"
  shows "(\<exists>s. find_optimal_pairs ar ts p = Some (Inr s))
   \<and> (\<forall>s s'. inner_body ar ts p s = Inr (Continue s') \<longrightarrow> position s < position s')
   \<and> (\<forall>s s' a. tmp s = [a] \<and> a \<le> position s \<and> inner_body ar ts p s = Inr (Continue s')
         \<longrightarrow> (\<exists>a'. tmp s' = [a'] \<and> a \<le> a' \<and> a' \<le> position s'))"
proof (intro conjI allI impI)
  show "\<exists>s. find_optimal_pairs ar ts p = Some (Inr s)"
    using find_optimal_pairs_total[OF assms, of ar p] by blast
next
  fix s s' assume "inner_body ar ts p s = Inr (Continue s')"
  with assms show "position s < position s'" by (rule inner_body_progress)
next
  fix s s' a
  assume "tmp s = [a] \<and> a \<le> position s \<and> inner_body ar ts p s = Inr (Continue s')"
  then show "\<exists>a'. tmp s' = [a'] \<and> a \<le> a' \<and> a' \<le> position s'"
    using inner_body_continue_buffer[of ar ts p s s' a] by blast
qed

theorem find_optimal_pairs_terminates_witness:
  "nan_free [Fin 100, Fin 101, Fin 10, Fin 110]
   \<and> inner_body exact [Fin 100, Fin 101, Fin 10, Fin 110] (Fin 0.01)
       \<lparr>position = 0, tmp = [0], registered_pairs = []\<rparr>
     = Inr (Continue \<lparr>position = 2, tmp = [2], registered_pairs = []\<rparr>)
   \<and> tmp \<lparr>position = 0, tmp = [0], registered_pairs = []\<rparr> = [0]
   \<and> 0 \<le> position \<lparr>position = 0, tmp = [0], registered_pairs = []\<rparr>
   \<and> position \<lparr>position = 0, tmp = [0], registered_pairs = []\<rparr>
       < position \<lparr>position = 2, tmp = [2], registered_pairs = []\<rparr>
   \<and> (\<exists>a'. tmp \<lparr>position = 2, tmp = [2], registered_pairs = []\<rparr> = [a'] \<and> 0 \<le> a'
          \<and> a' \<le> position \<lparr>position = 2, tmp = [2], registered_pairs = []\<rparr>)
   \<and> (\<exists>s. find_optimal_pairs exact [Fin 100, Fin 101, Fin 10, Fin 110] (Fin 0.01) = Some (Inr s))"
proof -
  have nf: "nan_free [Fin 100, Fin 101, Fin 10, Fin 110]" by (simp add: nan_free_def)
  from find_optimal_pairs_terminates[OF nf, of exact "Fin 0.01"]
  have "\<exists>s. find_optimal_pairs exact [Fin 100, Fin 101, Fin 10, Fin 110] (Fin 0.01) = Some (Inr s)"
    by blast
  with refine_run nf show ?thesis by simp
qed

text \<open>
  Claim C4. For a penalty that is a two-element tuple (entry penalty, exit penalty) the
  net-positivity test is claimed to compute
  \<open>(1 - exit) * value[exit_index] - (1 + entry) * value[entry_index] > 0\<close>.
  The method subtracts the penalty object from \<open>1\<close>: on the series \<open>[1, 2]\<close>, the
  tuple \<open>(0.01, 0.02)\<close> and the candidate \<open>[0, 1]\<close> it raises TypeError, although the
  claimed expression is positive there.
\<close>

theorem net_positive_tuple_TypeError:
  "net_positive ar [Fin 1, Fin 2] (Tuple [Fin (1 / 100), Fin (2 / 100)]) [0, 1] = Inl TypeError
   \<and> (1 - 2 / 100) * [1, 2 :: real] ! 1 - (1 + 1 / 100) * [1, 2 :: real] ! 0 > 0"
  by (simp add: net_positive_def)

text \<open>
  Claim C5. Constructing an instance with a malformed penalty is claimed to raise an
  error at construction time. The constructor accepts a tuple of three penalties.
\<close>

theorem init_accepts_malformed_penalty:
  "OptiTrade_init [Fin 1, Fin 2] (Tuple [Fin (1 / 10), Fin (2 / 10), Fin (3 / 10)])
     = Inr ([Fin 1, Fin 2], Tuple [Fin (1 / 10), Fin (2 / 10), Fin (3 / 10)],
            \<lparr>position = 0, tmp = [], registered_pairs = []\<rparr>)"
  by (simp add: OptiTrade_init_def)

text \<open>
  Claim C5, as the constructor behaves: for every series and every penalty object the
  constructor raises no error and returns an instance holding that penalty as given,
  with the cursor at 0, an empty buffer and an empty registry.
\<close>

theorem init_stores_penalty_unchecked:
  "OptiTrade_init ts pen = Inr (ts, pen, \<lparr>position = 0, tmp = [], registered_pairs = []\<rparr>)"
  by (simp add: OptiTrade_init_def)

text \<open>
  Claim C6. On the series of scenario A with penalty \<open>0.0025\<close> the scan registers the
  pair of the dip at index 1 (5.89) and the peak at index 5 (6.07), and that pair is
  net-positive: \<open>(1 - 0.0025) * 6.07 - (1 + 0.0025) * 5.89 > 0\<close>. The run is computed
  with the arithmetic without rounding; its three arithmetic decisions are about
  \<open>-0.00995\<close>, \<open>0.1501\<close> and \<open>0.07035\<close>, far from 0.
\<close>

theorem scenario_a_pair:
  "find_optimal_pairs exact (map Fin scenario_a) (Fin 0.0025)
     = Some (Inr \<lparr>position = 8, tmp = [8], registered_pairs = [[1, 5], [6, 7]]\<rparr>)
   \<and> scenario_a ! 1 = 5.89 \<and> scenario_a ! 5 = 6.07
   \<and> net_positive exact (map Fin scenario_a) (Scalar (Fin 0.0025)) [1, 5] = Inr True
   \<and> (1 - 0.0025) * 6.07 - (1 + 0.0025) * 5.89 > (0 :: real)"
  using scenario_a_run
  by (simp add: scenario_a_def net_positive_def list_at_def series_at_def bind_err_def
        exact_def ex_sub_def f_gt_def)

text \<open>
  Claim C7. On a series of length 0 or 1 the test of the outer loop fails at once: the
  scan returns the freshly constructed state, with no registered pair and no error.
\<close>

theorem short_series_no_pairs:
  "length ts \<le> 1 \<Longrightarrow>
   find_optimal_pairs ar ts p = Some (Inr \<lparr>position = 0, tmp = [], registered_pairs = []\<rparr>)"
  by (simp add: find_optimal_pairs_def OptiTrade_init_def outer_loop.simps)

theorem short_series_no_pairs_witness:
  "length [Fin 4] \<le> 1
   \<and> find_optimal_pairs exact [Fin 4] (Fin 0.01)
        = Some (Inr \<lparr>position = 0, tmp = [], registered_pairs = []\<rparr>)
   \<and> length ([] :: sample list) \<le> 1
   \<and> find_optimal_pairs exact [] (Fin 0.01)
        = Some (Inr \<lparr>position = 0, tmp = [], registered_pairs = []\<rparr>)"
  using short_series_no_pairs[of "[Fin 4]" exact "Fin 0.01"]
    short_series_no_pairs[of "[]" exact "Fin 0.01"] by simp

text \<open>
  Claim C8. On a strictly increasing series of length \<open>N \<ge> 2\<close> the scan returns, and it
  registers exactly the pair \<open>[0, N - 1]\<close> when \<open>(1 - p) * ts[N - 1] - (1 + p) * ts[0]\<close>, as
  the arithmetic of the machine computes it, is greater than 0 (the answer of
  \<^verbatim>\<open>net_positive\<close> on that pair), and no pair otherwise.
\<close>

theorem increasing_series_single_pair:
  assumes "2 \<le> length ts" "sorted_wrt f_lt ts"
  shows "\<exists>s. find_optimal_pairs ar ts p = Some (Inr s)
     \<and> registered_pairs s =
         (if f_gt (fsub ar (fmul ar (fsub ar (Fin 1) p) (ts ! (length ts - 1)))
                           (fmul ar (fadd ar (Fin 1) p) (ts ! 0))) (Fin 0)
          then [[0, length ts - 1]] else [])
     \<and> net_positive ar ts (Scalar p) [0, length ts - 1]
         = Inr (f_gt (fsub ar (fmul ar (fsub ar (Fin 1) p) (ts ! (length ts - 1)))
                              (fmul ar (fadd ar (Fin 1) p) (ts ! 0))) (Fin 0))"
proof -
  from assms(1) have "0 < length ts" "length ts - 1 < length ts" by arith+
  then have "net_positive ar ts (Scalar p) [0, length ts - 1]
         = Inr (f_gt (fsub ar (fmul ar (fsub ar (Fin 1) p) (ts ! (length ts - 1)))
                              (fmul ar (fadd ar (Fin 1) p) (ts ! 0))) (Fin 0))"
    by (rule net_positive_pair)
  with increasing_run[OF assms, of ar p] show ?thesis by simp
qed

theorem increasing_series_single_pair_witness:
  "2 \<le> length [Fin 1, Fin 2, Fin 3, Fin 4] \<and> sorted_wrt f_lt [Fin 1, Fin 2, Fin 3, Fin 4]
   \<and> (\<exists>s. find_optimal_pairs exact [Fin 1, Fin 2, Fin 3, Fin 4] (Fin 0.01) = Some (Inr s)
          \<and> registered_pairs s = [[0, 3]])
   \<and> (\<exists>s. find_optimal_pairs exact [Fin 1, Fin 2, Fin 3, Fin 4] (Fin 1) = Some (Inr s)
          \<and> registered_pairs s = [])"
proof -
  have h: "2 \<le> length [Fin 1, Fin 2, Fin 3, Fin 4]" "sorted_wrt f_lt [Fin 1, Fin 2, Fin 3, Fin 4]"
    by simp_all
  from increasing_series_single_pair[OF h, of exact "Fin 0.01"]
    increasing_series_single_pair[OF h, of exact "Fin 1"] h
  show ?thesis by (auto simp add: numeral_3_eq_3 exact_def ex_sub_def f_gt_def)
qed

text \<open>
  Claim C9. Every series or buffer access out of range is an error of the model, and the
  scan never ends in an error: \<^verbatim>\<open>find_smaller\<close> returns an index that is inside the
  series whenever it starts inside; whenever the scan returns, it returns a state, and
  every index of a registered pair is below the length of the series; on a series without
  NaN the scan does return such a state.
\<close>

theorem scan_indices_in_bounds:
  "(\<exists>m. find_smaller xs pos = Inr m \<and> pos \<le> m \<and> (pos < length xs \<longrightarrow> m < length xs))
   \<and> (\<forall>r. find_optimal_pairs ar ts p = Some r \<longrightarrow>
         (\<exists>s. r = Inr s \<and> (\<forall>pr \<in> set (registered_pairs s). \<forall>i \<in> set pr. i < length ts)))
   \<and> (nan_free ts \<longrightarrow>
         (\<exists>s. find_optimal_pairs ar ts p = Some (Inr s)
            \<and> (\<forall>pr \<in> set (registered_pairs s). \<forall>i \<in> set pr. i < length ts)))"
proof (intro conjI allI impI)
  show "\<exists>m. find_smaller xs pos = Inr m \<and> pos \<le> m \<and> (pos < length xs \<longrightarrow> m < length xs)"
    using find_smaller_result[of xs pos] by blast
next
  fix r assume r: "find_optimal_pairs ar ts p = Some r"
  from find_optimal_pairs_partial[OF r, of False]
  obtain s where s: "r = Inr s" "outer_inv False ar ts p s" by auto
  then have "\<forall>pr \<in> set (registered_pairs s). pair_ok False ar ts p (position s) pr"
    by (simp add: outer_inv_def regs_inv_def)
  then have "\<forall>pr \<in> set (registered_pairs s). \<forall>i \<in> set pr. i < length ts"
    by (fastforce simp: pair_ok_def)
  with s(1) show "\<exists>s. r = Inr s \<and> (\<forall>pr \<in> set (registered_pairs s). \<forall>i \<in> set pr. i < length ts)"
    by blast
next
  assume "nan_free ts"
  from find_optimal_pairs_total[OF this, of ar p]
  obtain s where s: "find_optimal_pairs ar ts p = Some (Inr s)" "outer_inv True ar ts p s" by blast
  then have "\<forall>pr \<in> set (registered_pairs s). pair_ok True ar ts p (position s) pr"
    by (simp add: outer_inv_def regs_inv_def)
  then have "\<forall>pr \<in> set (registered_pairs s). \<forall>i \<in> set pr. i < length ts"
    by (fastforce simp: pair_ok_def)
  with s(1) show "\<exists>s. find_optimal_pairs ar ts p = Some (Inr s)
            \<and> (\<forall>pr \<in> set (registered_pairs s). \<forall>i \<in> set pr. i < length ts)"
    by blast
qed

theorem scan_indices_in_bounds_witness:
  "(\<exists>m. find_smaller (map Fin scenario_a) 0 = Inr m \<and> 0 \<le> m
        \<and> 0 < length (map Fin scenario_a) \<and> m < length (map Fin scenario_a))
   \<and> nan_free (map Fin scenario_a)
   \<and> (\<exists>s. find_optimal_pairs exact (map Fin scenario_a) (Fin 0.0025) = Some (Inr s)
         \<and> [1, 5] \<in> set (registered_pairs s) \<and> 5 \<in> set [1, 5 :: nat]
         \<and> 5 < length (map Fin scenario_a))"
proof -
  have l: "0 < length (map Fin scenario_a)" "5 < length (map Fin scenario_a)"
    by (simp_all add: scenario_a_def)
  from scan_indices_in_bounds[of "map Fin scenario_a" 0 exact "map Fin scenario_a" "Fin 0.0025"] l(1)
  have "\<exists>m. find_smaller (map Fin scenario_a) 0 = Inr m \<and> 0 \<le> m
        \<and> 0 < length (map Fin scenario_a) \<and> m < length (map Fin scenario_a)"
    by blast
  with scenario_a_run scenario_a_nan_free l(2) show ?thesis by simp
qed

text \<open>
  Claim C10. The index left in the buffer when the scan returns is claimed to be an
  opt-in near the end of the series. On \<open>[1, 3, 2, 4]\<close> with penalty \<open>0.5\<close> the scan
  returns with the cursor at the last index and the buffer \<open>[0]\<close>: the opt-in left over
  is the first index.
\<close>

theorem leftover_opt_in_at_start:
  "find_optimal_pairs exact [Fin 1, Fin 3, Fin 2, Fin 4] (Fin (1 / 2))
     = Some (Inr \<lparr>position = 3, tmp = [0], registered_pairs = []\<rparr>)"
  by (simp add: eval_defs)

text \<open>
  Claim C10, without the place of the leftover opt-in. Whenever the scan returns, the
  buffer holds at most one index; if it holds one, the cursor is at the last index and the
  index is not after the cursor. Every registered pair has two elements, so the leftover
  buffer is not among the registered pairs. On a series without NaN the scan does return.
\<close>

theorem leftover_buffer_at_most_one:
  "(\<forall>r. find_optimal_pairs ar ts p = Some r \<longrightarrow>
      (\<exists>s. r = Inr s \<and> length (tmp s) \<le> 1
        \<and> (tmp s \<noteq> [] \<longrightarrow> position s + 1 = length ts \<and> hd (tmp s) \<le> position s)
        \<and> (\<forall>pr \<in> set (registered_pairs s). length pr = 2)
        \<and> tmp s \<notin> set (registered_pairs s)))
   \<and> (nan_free ts \<longrightarrow> (\<exists>s. find_optimal_pairs ar ts p = Some (Inr s)))"
proof (intro conjI allI impI)
  fix r assume r: "find_optimal_pairs ar ts p = Some r"
  from find_optimal_pairs_partial[OF r, of False]
  obtain s where s: "r = Inr s" "outer_inv False ar ts p s" "\<not> position s + 1 < length ts"
    by auto
  from s(2) have l: "length (tmp s) \<le> 1"
    and e: "tmp s \<noteq> [] \<longrightarrow> position s < length ts \<and> hd (tmp s) \<le> position s"
    and ok: "\<forall>pr \<in> set (registered_pairs s). pair_ok False ar ts p (position s) pr"
    by (simp_all add: outer_inv_def regs_inv_def)
  from e s(3) have e': "tmp s \<noteq> [] \<longrightarrow> position s + 1 = length ts \<and> hd (tmp s) \<le> position s"
    by auto
  from ok have two: "\<forall>pr \<in> set (registered_pairs s). length pr = 2"
    by (auto simp: pair_ok_def)
  with l have "tmp s \<notin> set (registered_pairs s)" by auto
  with s(1) l e' two
  show "\<exists>s. r = Inr s \<and> length (tmp s) \<le> 1
        \<and> (tmp s \<noteq> [] \<longrightarrow> position s + 1 = length ts \<and> hd (tmp s) \<le> position s)
        \<and> (\<forall>pr \<in> set (registered_pairs s). length pr = 2)
        \<and> tmp s \<notin> set (registered_pairs s)"
    by blast
next
  assume "nan_free ts"
  from find_optimal_pairs_total[OF this, of ar p]
  show "\<exists>s. find_optimal_pairs ar ts p = Some (Inr s)" by blast
qed

theorem leftover_buffer_at_most_one_witness:
  "nan_free (map Fin scenario_a)
   \<and> (\<exists>s. find_optimal_pairs exact (map Fin scenario_a) (Fin 0.0025) = Some (Inr s)
     \<and> tmp s = [8] \<and> tmp s \<noteq> []
     \<and> position s + 1 = length (map Fin scenario_a) \<and> hd (tmp s) \<le> position s
     \<and> [1, 5] \<in> set (registered_pairs s) \<and> length [1, 5 :: nat] = 2)"
  using leftover_buffer_at_most_one[of exact "map Fin scenario_a" "Fin 0.0025"]
    scenario_a_run scenario_a_nan_free
  by (simp add: scenario_a_def)

end
